theory Spec2Isabelle
  imports Main "HOL-Library.Word"
begin

unbundle bit_operations_syntax

section \<open>RecordIO: the header \<^verbatim>\<open>include/dmlc/recordio.h\<close>\<close>

text \<open>
  The header declares the two classes \<^verbatim>\<open>RecordIOWriter\<close> and \<^verbatim>\<open>RecordIOReader\<close>.
  Its inline members (the magic constant, the three lrecord helpers, the two constructors
  and the accessor \<^verbatim>\<open>except_counter\<close>) are embedded here as they are written.
  \<^verbatim>\<open>unsigned\<close> is a 32-bit word: both constructors check that it is 4 bytes wide
  before anything else runs.
\<close>

type_synonym u32 = "32 word"
type_synonym byte = "8 word"

text \<open>\<^verbatim>\<open>static const unsigned kMagic = 0x3ed7230a;\<close>\<close>

definition kMagic :: u32 where
  "kMagic = 0x3ed7230a"

text \<open>\<^verbatim>\<open>return (cflag << 30U) | length;\<close>\<close>

definition EncodeLRec :: "u32 \<Rightarrow> u32 \<Rightarrow> u32" where
  "EncodeLRec cflag len = (push_bit 30 cflag) OR len"

text \<open>\<^verbatim>\<open>return (rec >> 30U) & 3U;\<close>\<close>

definition DecodeFlag :: "u32 \<Rightarrow> u32" where
  "DecodeFlag lrec = (drop_bit 30 lrec) AND 3"

text \<open>\<^verbatim>\<open>return rec & ((1U << 30U) - 1U);\<close>\<close>

definition DecodeLength :: "u32 \<Rightarrow> u32" where
  "DecodeLength lrec = lrec AND (push_bit 30 1 - 1)"

subsection \<open>Streams, failures and the two objects\<close>

text \<open>
  Modelled from the spec: the class \<^verbatim>\<open>Stream\<close> of \<^verbatim>\<open>io.h\<close>, which is not among
  the sources. The spec asks only for sequential writes and exact-size reads, so a stream is
  the list of its bytes: for a writer the bytes written so far, for a reader the bytes not
  yet read.
\<close>

type_synonym Stream = "byte list"

text \<open>
  Modelled from the spec: the macro \<^verbatim>\<open>CHECK\<close> of \<^verbatim>\<open>logging.h\<close>, which is not
  among the sources. A failed check aborts the call; the abort is the value
  \<open>Inl CheckFailed\<close>. The other two failures are those of the spec's error taxonomy.
\<close>

datatype error = CheckFailed | PreconditionViolation | CorruptFraming

text \<open>
  The private members \<^verbatim>\<open>stream_\<close> and \<^verbatim>\<open>except_counter_\<close> of the writer,
  \<^verbatim>\<open>stream_\<close> and \<^verbatim>\<open>end_of_stream_\<close> of the reader. A name cannot end in an
  underscore here, so each field carries the letter of its class after it.
\<close>

record RecordIOWriter =
  stream_w :: Stream
  except_counter_w :: u32

record RecordIOReader =
  stream_r :: Stream
  end_of_stream_r :: bool

text \<open>
  The constructors. \<^verbatim>\<open>sizeof(unsigned)\<close> is a property of the platform, so it is
  an argument: the initialiser list runs, then
  \<^verbatim>\<open>CHECK(sizeof(unsigned) == 4) << "unsigned needs to be 4 bytes";\<close>
\<close>

definition new_RecordIOWriter :: "nat \<Rightarrow> Stream \<Rightarrow> error + RecordIOWriter" where
  "new_RecordIOWriter sizeof_unsigned stream =
     (if sizeof_unsigned = 4
      then Inr \<lparr>stream_w = stream, except_counter_w = 0\<rparr>
      else Inl CheckFailed)"

definition new_RecordIOReader :: "nat \<Rightarrow> Stream \<Rightarrow> error + RecordIOReader" where
  "new_RecordIOReader sizeof_unsigned stream =
     (if sizeof_unsigned = 4
      then Inr \<lparr>stream_r = stream, end_of_stream_r = False\<rparr>
      else Inl CheckFailed)"

text \<open>
  \<^verbatim>\<open>inline unsigned except_counter(void) const { return except_counter_; }\<close>
  The accessor returns the counter together with the object it leaves behind.
\<close>

definition except_counter :: "RecordIOWriter \<Rightarrow> u32 \<times> RecordIOWriter" where
  "except_counter w = (except_counter_w w, w)"

section \<open>The byte stream format\<close>

text \<open>
  The bodies of \<^verbatim>\<open>WriteRecord\<close> and \<^verbatim>\<open>ReadRecord\<close> are not in the header.
  They are written here from the algorithms of the spec (sections 4.1, 4.2 and 6), one
  definition for each step.
\<close>

subsection \<open>Words as bytes\<close>

text \<open>
  Modelled from the spec: how \<^verbatim>\<open>WriteRecord\<close> and \<^verbatim>\<open>ReadRecord\<close>, whose bodies
  are missing, move a 4-byte word to and from the stream. The spec fixes "the host's native
  in-memory representation", shared by writer and reader, so the layout is an argument of
  both.
\<close>

datatype layout = LittleEndian | BigEndian

definition u32_bytes_le :: "u32 \<Rightarrow> byte list" where
  "u32_bytes_le w = [ucast w, ucast (drop_bit 8 w), ucast (drop_bit 16 w), ucast (drop_bit 24 w)]"

fun u32_bytes :: "layout \<Rightarrow> u32 \<Rightarrow> byte list" where
  "u32_bytes LittleEndian w = u32_bytes_le w"
| "u32_bytes BigEndian w = rev (u32_bytes_le w)"

fun bytes_u32_le :: "byte list \<Rightarrow> u32" where
  "bytes_u32_le [b0, b1, b2, b3] =
     ucast b0 OR push_bit 8 (ucast b1) OR push_bit 16 (ucast b2) OR push_bit 24 (ucast b3)"
| "bytes_u32_le bs = 0"

fun bytes_u32 :: "layout \<Rightarrow> byte list \<Rightarrow> u32" where
  "bytes_u32 LittleEndian bs = bytes_u32_le bs"
| "bytes_u32 BigEndian bs = bytes_u32_le (rev bs)"

subsection \<open>The writer\<close>

text \<open>
  Modelled from the spec: the pad of a chunk, \<open>(4 - length mod 4) mod 4\<close> zero bytes
  (section 4.1, step 4), used by the missing bodies of \<^verbatim>\<open>WriteRecord\<close> and
  \<^verbatim>\<open>ReadRecord\<close>.
\<close>

definition pad_len :: "nat \<Rightarrow> nat" where
  "pad_len n = (4 - n mod 4) mod 4"

text \<open>
  Modelled from the spec: step 1 of the missing body of \<^verbatim>\<open>WriteRecord\<close>. The
  payload is scanned for every occurrence of the magic bytes and partitioned into
  occurrences + 1 segments, in order; the segments together are the payload (section 3:
  the payloads of the chunks of a record, concatenated, are the record), and every
  occurrence is cut by a segment boundary, so that no segment contains one. The spec leaves
  open where inside an occurrence the boundary falls: here the segment ends with the first
  byte of the occurrence and the next one starts with its second byte.
\<close>

fun push_front :: "'a \<Rightarrow> 'a list list \<Rightarrow> 'a list list" where
  "push_front x [] = [[x]]"
| "push_front x (s # ss) = (x # s) # ss"

fun split_magic :: "byte list \<Rightarrow> byte list \<Rightarrow> byte list list" where
  "split_magic m [] = [[]]"
| "split_magic m (x # xs) =
     (if take (length m) (x # xs) = m
      then [x] # split_magic m xs
      else push_front x (split_magic m xs))"

text \<open>
  What step 1 speaks of: the number of occurrences of the magic bytes in a payload, counted
  at every offset, and whether a byte list contains them.
\<close>

fun occurrences :: "byte list \<Rightarrow> byte list \<Rightarrow> nat" where
  "occurrences m [] = 0"
| "occurrences m (x # xs) =
     (if take (length m) (x # xs) = m then 1 else 0) + occurrences m xs"

fun contains :: "byte list \<Rightarrow> byte list \<Rightarrow> bool" where
  "contains m [] = (m = [])"
| "contains m (x # xs) = (take (length m) (x # xs) = m \<or> contains m xs)"

text \<open>
  Modelled from the spec: step 4 of the missing body of \<^verbatim>\<open>WriteRecord\<close>, the bytes
  of one chunk: the magic number, the lrecord \<open>EncodeLRec cflag length\<close>, the segment and
  the pad. \<open>frame\<close> takes the pad bytes as they are; \<open>chunk_bytes\<close> is the chunk the
  writer emits, with a pad of zero bytes.
\<close>

definition frame :: "layout \<Rightarrow> u32 \<Rightarrow> byte list \<Rightarrow> byte list \<Rightarrow> byte list" where
  "frame l cflag payload pad =
     u32_bytes l kMagic @
     u32_bytes l (EncodeLRec cflag (of_nat (length payload))) @
     payload @
     pad"

definition chunk_bytes :: "layout \<Rightarrow> u32 \<Rightarrow> byte list \<Rightarrow> byte list" where
  "chunk_bytes l cflag seg = frame l cflag seg (replicate (pad_len (length seg)) 0)"

text \<open>
  Modelled from the spec: steps 2 and 3 of the missing body of \<^verbatim>\<open>WriteRecord\<close>. One
  segment is one chunk with flag 0; several segments are a chunk with flag 1, chunks with
  flag 2 and a last chunk with flag 3.
\<close>

fun tail_chunks :: "layout \<Rightarrow> byte list list \<Rightarrow> byte list" where
  "tail_chunks l [] = []"
| "tail_chunks l [seg] = chunk_bytes l 3 seg"
| "tail_chunks l (seg # segs) = chunk_bytes l 2 seg @ tail_chunks l segs"

fun record_chunks :: "layout \<Rightarrow> byte list list \<Rightarrow> byte list" where
  "record_chunks l [] = []"
| "record_chunks l [seg] = chunk_bytes l 0 seg"
| "record_chunks l (seg # segs) = chunk_bytes l 1 seg @ tail_chunks l segs"

text \<open>
  Modelled from the spec: the missing body of \<^verbatim>\<open>WriteRecord\<close>. A payload of
  \<open>2 ^ 30\<close> bytes or more is rejected when the call starts (section 7,
  PreconditionViolation); otherwise the chunks of the record are appended to the stream and
  the exception counter goes up by one for each occurrence of the magic number.
\<close>

definition WriteRecord :: "layout \<Rightarrow> RecordIOWriter \<Rightarrow> byte list \<Rightarrow> error + RecordIOWriter" where
  "WriteRecord l w buf =
     (if 2 ^ 30 \<le> length buf then Inl PreconditionViolation
      else
        let segs = split_magic (u32_bytes l kMagic) buf
        in Inr \<lparr>stream_w = stream_w w @ record_chunks l segs,
                except_counter_w = except_counter_w w + of_nat (length segs - 1)\<rparr>)"

subsection \<open>The reader\<close>

text \<open>
  Modelled from the spec: \<^verbatim>\<open>Stream::Read\<close> of \<^verbatim>\<open>io.h\<close>, which is not among the
  sources: a read of \<open>n\<close> bytes gives the next \<open>n\<close> bytes, or fewer at the end of the
  stream (section 6).
\<close>

definition Read :: "nat \<Rightarrow> Stream \<Rightarrow> byte list \<times> Stream" where
  "Read n s = (take n s, drop n s)"

text \<open>
  Modelled from the spec: steps 1 to 4 of the missing body of \<^verbatim>\<open>ReadRecord\<close>, for
  one chunk. A read of the magic number that yields nothing is the end of the stream
  (\<open>Inr None\<close>); a magic number that is short or wrong, a short lrecord, a short payload
  and a short pad are the failure \<open>CorruptFraming\<close>; otherwise the result is the flag,
  the payload and the stream after the pad.
\<close>

definition read_chunk :: "layout \<Rightarrow> Stream \<Rightarrow> error + (u32 \<times> byte list \<times> Stream) option" where
  "read_chunk l s =
     (case Read 4 s of (magic, s1) \<Rightarrow>
        if magic = [] then Inr None
        else if length magic < 4 \<or> bytes_u32 l magic \<noteq> kMagic then Inl CorruptFraming
        else
          case Read 4 s1 of (header, s2) \<Rightarrow>
            if length header < 4 then Inl CorruptFraming
            else
              let lrec = bytes_u32 l header;
                  cflag = DecodeFlag lrec;
                  len = unat (DecodeLength lrec)
              in case Read len s2 of (payload, s3) \<Rightarrow>
                   if length payload < len then Inl CorruptFraming
                   else
                     case Read (pad_len len) s3 of (pad, s4) \<Rightarrow>
                       if length pad < pad_len len then Inl CorruptFraming
                       else Inr (Some (cflag, payload, s4)))"

lemma read_chunk_shorter:
  "read_chunk l s = Inr (Some (cflag, payload, rest)) \<Longrightarrow> length rest < length s"
  by (auto simp: read_chunk_def Read_def Let_def split: if_splits)

text \<open>
  Modelled from the spec: steps 1, 5 and 6 of the missing body of \<^verbatim>\<open>ReadRecord\<close>,
  the loop over the chunks of one record. The payload is appended to the record read so far;
  flag 0 or 3 ends the record, flag 1 or 2 goes back to step 1 for the next chunk.
  \<open>started\<close> says whether a chunk has been read in this call. A stream that yields
  nothing at step 1 ends the call with \<open>found = False\<close> only when no chunk has been read
  for this call (the contract of section 4.2, and CleanEndOfStream in section 7); after a
  chunk with flag 1 or 2 the record has to be read to completion or the call fails
  (section 5), so there the same read is the failure \<open>CorruptFraming\<close>. The result is
  \<open>found\<close>, the record and the stream that is left.
\<close>

function read_loop ::
  "layout \<Rightarrow> bool \<Rightarrow> byte list \<Rightarrow> Stream \<Rightarrow> error + (bool \<times> byte list \<times> Stream)" where
  "read_loop l started acc s =
     (case read_chunk l s of
        Inl e \<Rightarrow> Inl e
      | Inr None \<Rightarrow> if started then Inl CorruptFraming else Inr (False, acc, s)
      | Inr (Some (cflag, payload, rest)) \<Rightarrow>
          if cflag = 0 \<or> cflag = 3 then Inr (True, acc @ payload, rest)
          else read_loop l True (acc @ payload) rest)"
  by pat_completeness auto
termination
  by (relation "measure (\<lambda>(l, started, acc, s). length s)") (auto dest: read_chunk_shorter)

declare read_loop.simps [simp del]

text \<open>
  Modelled from the spec: the missing body of \<^verbatim>\<open>ReadRecord\<close>: the loop, started
  with an empty record and no chunk read; the end of the stream sets
  \<^verbatim>\<open>end_of_stream_\<close> (step 1).
\<close>

definition ReadRecord :: "layout \<Rightarrow> RecordIOReader \<Rightarrow> error + (bool \<times> byte list \<times> RecordIOReader)" where
  "ReadRecord l r =
     (case read_loop l False [] (stream_r r) of
        Inl e \<Rightarrow> Inl e
      | Inr (found, out_rec, rest) \<Rightarrow>
          Inr (found, out_rec,
               \<lparr>stream_r = rest, end_of_stream_r = (end_of_stream_r r \<or> \<not> found)\<rparr>))"

subsection \<open>Streams as the reader sees them\<close>

text \<open>
  The length that the lrecord of the next chunk declares, and the streams on which reading
  one chunk fails: a stream that is not empty and whose first four bytes are not the magic
  number (a wrong one, or fewer than four bytes), or whose lrecord is cut short, or that
  ends before the declared payload and its pad do.
\<close>

definition declared_len :: "layout \<Rightarrow> Stream \<Rightarrow> nat" where
  "declared_len l s = unat (DecodeLength (bytes_u32 l (take 4 (drop 4 s))))"

definition malformed :: "layout \<Rightarrow> Stream \<Rightarrow> bool" where
  "malformed l s \<longleftrightarrow>
     s \<noteq> [] \<and>
     (take 4 s \<noteq> u32_bytes l kMagic \<or>
      length s < 8 \<or>
      length s < 8 + declared_len l s + pad_len (declared_len l s))"




section \<open>The lrecord helpers\<close>

lemma three_is_mask: "(3 :: u32) = mask 2"
  by (simp add: mask_eq_exp_minus_1)

lemma low30_is_mask: "push_bit 30 1 - 1 = (mask 30 :: u32)"
  by (simp add: mask_eq_exp_minus_1)

lemma DecodeLength_take_bit: "DecodeLength lrec = take_bit 30 lrec"
  unfolding DecodeLength_def low30_is_mask by (simp add: take_bit_eq_mask)

lemma DecodeFlag_take_bit: "DecodeFlag lrec = take_bit 2 (drop_bit 30 lrec)"
  unfolding DecodeFlag_def three_is_mask by (simp add: take_bit_eq_mask)

lemma DecodeFlag_drop_bit: "DecodeFlag lrec = drop_bit 30 lrec"
  unfolding DecodeFlag_take_bit
  by (rule bit_word_eqI) (auto simp: bit_simps dest: bit_imp_le_length)

lemma small_length_bits:
  fixes len :: u32
  assumes "len < 2 ^ 30" and "30 \<le> n"
  shows "\<not> bit len n"
proof -
  have "take_bit 30 len = len"
    using less_mask_eq [OF assms(1)] by (simp add: take_bit_eq_mask)
  then show ?thesis
    using assms(2) by (metis bit_take_bit_iff not_le)
qed

lemma small_flag_bits:
  fixes cflag :: u32
  assumes "cflag < 4" and "2 \<le> n"
  shows "\<not> bit cflag n"
proof -
  have "cflag < 2 ^ 2" using assms(1) by simp
  then have "take_bit 2 cflag = cflag"
    using less_mask_eq [of cflag 2] by (simp add: take_bit_eq_mask)
  then show ?thesis
    using assms(2) by (metis bit_take_bit_iff not_le)
qed

lemma DecodeFlag_EncodeLRec:
  assumes "cflag < 4" and "len < 2 ^ 30"
  shows "DecodeFlag (EncodeLRec cflag len) = cflag"
proof -
  have "drop_bit 30 (push_bit 30 cflag OR len) = cflag"
  proof (rule bit_word_eqI)
    fix n
    assume "n < LENGTH(32)"
    show "bit (drop_bit 30 (push_bit 30 cflag OR len)) n = bit cflag n"
      using small_flag_bits [OF assms(1), of n]
      by (cases "n < 2") (auto simp: bit_simps small_length_bits [OF assms(2)])
  qed
  then show ?thesis
    by (simp add: EncodeLRec_def DecodeFlag_drop_bit)
qed

lemma DecodeLength_EncodeLRec:
  assumes "len < 2 ^ 30"
  shows "DecodeLength (EncodeLRec cflag len) = len"
proof -
  have "take_bit 30 (push_bit 30 cflag OR len) = len"
    by (rule bit_word_eqI) (auto simp: bit_simps small_length_bits [OF assms])
  then show ?thesis
    by (simp add: EncodeLRec_def DecodeLength_take_bit)
qed

lemma EncodeLRec_Decode: "EncodeLRec (DecodeFlag lrec) (DecodeLength lrec) = lrec"
  unfolding EncodeLRec_def DecodeFlag_drop_bit DecodeLength_take_bit
  by (rule bit_word_eqI) (auto simp: bit_simps)

lemma DecodeFlag_less: "DecodeFlag lrec < 4"
proof -
  have "drop_bit 30 lrec AND mask 2 < (2 ^ 2 :: u32)"
    by (rule and_mask_less') simp
  then show ?thesis
    by (simp add: DecodeFlag_def three_is_mask)
qed

lemma DecodeLength_less: "DecodeLength lrec < 2 ^ 30"
proof -
  have "lrec AND mask 30 < (2 ^ 30 :: u32)"
    by (rule and_mask_less') simp
  then show ?thesis
    unfolding DecodeLength_def low30_is_mask .
qed

text \<open>
  C2. For a flag in \<open>{0, 1, 2, 3}\<close> and a length below \<open>2 ^ 30\<close>, decoding the packed
  lrecord gives the flag and the length back: the flag sits in the top two bits of the
  32-bit word and the length in the bottom thirty.
\<close>

theorem header_packing_roundtrip:
  assumes "cflag < 4" and "len < 2 ^ 30"
  shows "DecodeFlag (EncodeLRec cflag len) = cflag \<and>
         DecodeLength (EncodeLRec cflag len) = len \<and>
         drop_bit 30 (EncodeLRec cflag len) = cflag \<and>
         take_bit 30 (EncodeLRec cflag len) = len"
  using DecodeFlag_EncodeLRec [OF assms] DecodeLength_EncodeLRec [OF assms(2), of cflag]
  by (simp add: DecodeFlag_drop_bit DecodeLength_take_bit)

theorem header_packing_roundtrip_witness:
  "(3 :: u32) < 4 \<and> (1000 :: u32) < 2 ^ 30 \<and>
   EncodeLRec 3 1000 = 0xC00003E8 \<and>
   DecodeFlag (EncodeLRec 3 1000) = 3 \<and> DecodeLength (EncodeLRec 3 1000) = 1000"
proof -
  have f: "(3 :: u32) < 4" and l: "(1000 :: u32) < 2 ^ 30"
    by simp_all
  have "EncodeLRec 3 1000 = 0xC00003E8"
    by (simp add: EncodeLRec_def)
  with f l header_packing_roundtrip [OF f l] show ?thesis
    by simp
qed

text \<open>
  C3. The magic number is the one constant \<open>0x3ed7230a\<close>, a static member of the writer
  class: a 32-bit (four-byte) value that does not depend on any writer, reader or stream.
\<close>

theorem kMagic_value:
  "kMagic = 0x3ed7230a \<and> unat kMagic = 1054286602 \<and> size kMagic = 32"
  by (simp add: kMagic_def word_size)

text \<open>
  C8. Packing the flag and the length decoded from any 32-bit word gives the word back, so
  the pair (flag, length) determines the lrecord.
\<close>

theorem lrecord_of_decoded_parts:
  "EncodeLRec (DecodeFlag lrec) (DecodeLength lrec) = lrec"
  by (rule EncodeLRec_Decode)

text \<open>
  C9. The two decoders have no precondition, and on every 32-bit word the decoded flag is
  below 4 and the decoded length is below \<open>2 ^ 30\<close>, whether or not the word came from
  \<open>EncodeLRec\<close>.
\<close>

theorem decoders_in_range:
  "DecodeFlag lrec < 4 \<and> DecodeLength lrec < 2 ^ 30"
  using DecodeFlag_less [of lrec] DecodeLength_less [of lrec] by (rule conjI)

section \<open>Construction\<close>

text \<open>
  C7. On a platform whose \<^verbatim>\<open>unsigned\<close> is not 4 bytes wide, constructing a writer
  or a reader fails in the constructor's check: no object comes back, so no lrecord is ever
  packed with an integer of another width.
\<close>

theorem constructors_check_width:
  assumes "sizeof_unsigned \<noteq> 4"
  shows "new_RecordIOWriter sizeof_unsigned ws = Inl CheckFailed \<and>
         new_RecordIOReader sizeof_unsigned rs = Inl CheckFailed"
  using assms by (simp add: new_RecordIOWriter_def new_RecordIOReader_def)

theorem constructors_check_width_witness:
  "(8 :: nat) \<noteq> 4 \<and>
   new_RecordIOWriter 8 [] = Inl CheckFailed \<and>
   new_RecordIOReader 8 [1, 2, 3] = Inl CheckFailed"
proof -
  have h: "(8 :: nat) \<noteq> 4" by simp
  from h constructors_check_width [OF h, of "[]" "[1, 2, 3]"] show ?thesis
    by simp
qed

text \<open>
  C10. A writer that has just been constructed reports an exception counter of 0, and
  reading the counter leaves every writer as it was.
\<close>

theorem fresh_except_counter:
  assumes "new_RecordIOWriter sizeof_unsigned s = Inr w"
  shows "fst (except_counter w) = 0 \<and> stream_w w = s \<and> snd (except_counter w') = w'"
  using assms
  by (auto simp: new_RecordIOWriter_def except_counter_def split: if_splits)

theorem fresh_except_counter_witness:
  "new_RecordIOWriter 4 [7] = Inr \<lparr>stream_w = [7], except_counter_w = 0\<rparr> \<and>
   fst (except_counter \<lparr>stream_w = [7], except_counter_w = 0\<rparr>) = 0 \<and>
   snd (except_counter \<lparr>stream_w = [9], except_counter_w = 5\<rparr>) =
     \<lparr>stream_w = [9], except_counter_w = 5\<rparr>"
proof -
  have h: "new_RecordIOWriter 4 [7] = Inr \<lparr>stream_w = [7], except_counter_w = 0\<rparr>"
    by (simp add: new_RecordIOWriter_def)
  from h fresh_except_counter [OF h, of "\<lparr>stream_w = [9], except_counter_w = 5\<rparr>"]
  show ?thesis
    by simp
qed

section \<open>Words as bytes\<close>

lemma bytes_u32_le_inverse: "bytes_u32_le (u32_bytes_le w) = w"
proof (rule bit_word_eqI)
  fix n
  assume n: "n < LENGTH(32)"
  consider "n < 8" | "8 \<le> n" "n < 16" | "16 \<le> n" "n < 24" | "24 \<le> n"
    by linarith
  then show "bit (bytes_u32_le (u32_bytes_le w)) n = bit w n"
    using n by cases (auto simp: u32_bytes_le_def bit_simps)
qed

lemma bytes_u32_inverse: "bytes_u32 l (u32_bytes l w) = w"
  by (cases l) (simp_all add: bytes_u32_le_inverse)

lemma length_u32_bytes: "length (u32_bytes l w) = 4"
  by (cases l) (simp_all add: u32_bytes_le_def)

lemma u32_bytes_le_inverse: "u32_bytes_le (bytes_u32_le [b0, b1, b2, b3]) = [b0, b1, b2, b3]"
proof -
  let ?w = "bytes_u32_le [b0, b1, b2, b3]"
  have 0: "ucast ?w = b0"
    by (rule bit_word_eqI) (auto simp: bit_simps dest: bit_imp_le_length)
  have 1: "ucast (drop_bit 8 ?w) = b1"
    by (rule bit_word_eqI) (auto simp: bit_simps dest: bit_imp_le_length)
  have 2: "ucast (drop_bit 16 ?w) = b2"
    by (rule bit_word_eqI) (auto simp: bit_simps dest: bit_imp_le_length)
  have 3: "ucast (drop_bit 24 ?w) = b3"
    by (rule bit_word_eqI) (auto simp: bit_simps dest: bit_imp_le_length)
  show ?thesis
    unfolding u32_bytes_le_def using 0 1 2 3 by (simp only:)
qed

lemma four_bytes:
  assumes "length bs = 4"
  obtains b0 b1 b2 b3 where "bs = [b0, b1, b2, b3]"
proof -
  from assms obtain b0 t0 where "bs = b0 # t0" "length t0 = 3"
    by (cases bs) simp_all
  moreover then obtain b1 t1 where "t0 = b1 # t1" "length t1 = 2"
    by (cases t0) simp_all
  moreover then obtain b2 t2 where "t1 = b2 # t2" "length t2 = 1"
    by (cases t1) simp_all
  moreover then obtain b3 where "t2 = [b3]"
    by (cases t2) simp_all
  ultimately show ?thesis using that by simp
qed

lemma u32_bytes_inverse:
  assumes "length bs = 4"
  shows "u32_bytes l (bytes_u32 l bs) = bs"
proof -
  from assms obtain b0 b1 b2 b3 where bs: "bs = [b0, b1, b2, b3]"
    by (rule four_bytes)
  show ?thesis
  proof (cases l)
    case LittleEndian
    then show ?thesis
      unfolding bs by (simp only: u32_bytes.simps bytes_u32.simps u32_bytes_le_inverse)
  next
    case BigEndian
    have "rev (u32_bytes_le (bytes_u32_le [b3, b2, b1, b0])) = [b0, b1, b2, b3]"
      by (simp only: u32_bytes_le_inverse) simp
    with BigEndian show ?thesis
      unfolding bs by simp
  qed
qed

lemma unat_length_u32:
  assumes "n < 2 ^ 30"
  shows "unat (of_nat n :: u32) = n" and "(of_nat n :: u32) < 2 ^ 30"
proof -
  have "n < 2 ^ 32" using assms by simp
  then show u: "unat (of_nat n :: u32) = n"
    by (simp add: unat_of_nat)
  show "(of_nat n :: u32) < 2 ^ 30"
    using assms u by (simp add: word_less_nat_alt)
qed

section \<open>The writer\<close>

subsection \<open>Segments\<close>

lemma concat_push_front: "concat (push_front x ss) = x # concat ss"
  by (cases ss) simp_all

lemma push_front_not_Nil: "push_front x ss \<noteq> []"
  by (cases ss) simp_all

lemma concat_split_magic: "concat (split_magic m buf) = buf"
  by (induction buf) (simp_all add: concat_push_front)

lemma split_magic_not_Nil: "split_magic m buf \<noteq> []"
  by (cases buf) (simp_all add: push_front_not_Nil)

lemma segment_length_le:
  assumes "seg \<in> set (split_magic m buf)"
  shows "length seg \<le> length buf"
proof -
  have "length seg \<le> length (concat (split_magic m buf))"
    using assms by (induction "split_magic m buf" arbitrary: ) (auto simp: length_concat intro: member_le_sum_list)
  then show ?thesis by (simp add: concat_split_magic)
qed

lemma segments_short:
  assumes "length buf < 2 ^ 30" and "seg \<in> set (split_magic m buf)"
  shows "length seg < 2 ^ 30"
  using segment_length_le [OF assms(2)] assms(1) by (rule le_less_trans)

text \<open>
  The segments are what step 1 of the writer asks for: one more than there are occurrences
  of the magic bytes, and none of them contains the magic bytes.
\<close>

lemma length_push_front: "ss \<noteq> [] \<Longrightarrow> length (push_front x ss) = length ss"
  by (cases ss) simp_all

lemma length_split_magic: "length (split_magic m buf) = occurrences m buf + 1"
  by (induction buf) (simp_all add: length_push_front split_magic_not_Nil)

lemma contains_iff: "contains m xs \<longleftrightarrow> (\<exists>ps ss. xs = ps @ m @ ss)"
proof (induction xs)
  case Nil
  then show ?case by auto
next
  case (Cons x xs)
  show ?case
  proof
    assume "contains m (x # xs)"
    then consider "take (length m) (x # xs) = m" | "contains m xs" by auto
    then show "\<exists>ps ss. x # xs = ps @ m @ ss"
    proof cases
      case 1
      then have "x # xs = [] @ m @ drop (length m) (x # xs)"
        by (metis append_Nil append_take_drop_id)
      then show ?thesis by blast
    next
      case 2
      with Cons.IH obtain ps ss where "xs = ps @ m @ ss" by blast
      then have "x # xs = (x # ps) @ m @ ss" by simp
      then show ?thesis by blast
    qed
  next
    assume "\<exists>ps ss. x # xs = ps @ m @ ss"
    then obtain ps ss where e: "x # xs = ps @ m @ ss" by blast
    show "contains m (x # xs)"
    proof (cases ps)
      case Nil
      with e have "take (length m) (x # xs) = m" by simp
      then show ?thesis by simp
    next
      case (Cons p ps')
      with e have "xs = ps' @ m @ ss" by simp
      with Cons.IH show ?thesis by auto
    qed
  qed
qed

lemma split_magic_prefix:
  "\<exists>s ss rest. split_magic m buf = s # ss \<and> buf = s @ rest"
proof -
  obtain s ss where "split_magic m buf = s # ss"
    using split_magic_not_Nil [of m buf] by (cases "split_magic m buf") auto
  moreover then have "buf = s @ concat ss"
    using concat_split_magic [of m buf] by simp
  ultimately show ?thesis by blast
qed

lemma split_magic_no_magic:
  assumes "2 \<le> length m" and "seg \<in> set (split_magic m buf)"
  shows "\<not> contains m seg"
  using assms(2)
proof (induction buf arbitrary: seg)
  case Nil
  with assms(1) show ?case by auto
next
  case (Cons x xs)
  show ?case
  proof (cases "take (length m) (x # xs) = m")
    case True
    with Cons.prems have "seg = [x] \<or> seg \<in> set (split_magic m xs)" by simp
    then show ?thesis
    proof
      assume "seg = [x]"
      with assms(1) show ?thesis by auto
    next
      assume "seg \<in> set (split_magic m xs)"
      then show ?thesis by (rule Cons.IH)
    qed
  next
    case False
    obtain s ss rest where sp: "split_magic m xs = s # ss" and xs: "xs = s @ rest"
      using split_magic_prefix by blast
    from Cons.prems False sp have "seg = x # s \<or> seg \<in> set (split_magic m xs)"
      by auto
    then show ?thesis
    proof
      assume seg: "seg = x # s"
      have "\<not> contains m s"
        by (rule Cons.IH) (simp add: sp)
      moreover have "take (length m) (x # s) \<noteq> m"
      proof
        assume t: "take (length m) (x # s) = m"
        then have "length m \<le> length (x # s)"
          by (metis length_take min.cobounded1)
        then have "take (length m) ((x # s) @ rest) = take (length m) (x # s)"
          by (simp only: take_append diff_is_0_eq' take_0 append_Nil2)
        then have "take (length m) (x # xs) = take (length m) (x # s)"
          unfolding xs by simp
        with t False show False by simp
      qed
      ultimately show ?thesis by (simp add: seg)
    next
      assume "seg \<in> set (split_magic m xs)"
      then show ?thesis by (rule Cons.IH)
    qed
  qed
qed

subsection \<open>Chunk sizes\<close>

lemma pad_len_aligned: "4 dvd n + pad_len n"
proof -
  define r where "r = n mod 4"
  have "r < 4" by (simp add: r_def)
  then consider "r = 0" | "r = 1" | "r = 2" | "r = 3" by linarith
  then have "(r + (4 - r) mod 4) mod 4 = 0"
    by cases simp_all
  moreover have "(n + pad_len n) mod 4 = (n mod 4 + pad_len n mod 4) mod 4"
    by (simp only: mod_add_eq)
  ultimately have "(n + pad_len n) mod 4 = 0"
    by (simp add: pad_len_def r_def)
  then show ?thesis by (simp only: dvd_eq_mod_eq_0)
qed

lemma length_frame: "length (frame l cflag payload pad) = 8 + length payload + length pad"
  by (simp add: frame_def length_u32_bytes)

lemma length_chunk_bytes:
  "length (chunk_bytes l cflag seg) = 8 + length seg + (4 - length seg mod 4) mod 4"
  by (simp add: chunk_bytes_def length_frame pad_len_def)

lemma chunk_bytes_aligned: "4 dvd length (chunk_bytes l cflag seg)"
proof -
  have "length (chunk_bytes l cflag seg) = 8 + (length seg + pad_len (length seg))"
    by (simp add: chunk_bytes_def length_frame)
  moreover have "(4::nat) dvd 8" by simp
  ultimately show ?thesis
    using pad_len_aligned [of "length seg"] by (simp only: dvd_add)
qed

lemma tail_chunks_aligned: "4 dvd length (tail_chunks l segs)"
  by (induction l segs rule: tail_chunks.induct) (simp_all add: chunk_bytes_aligned)

lemma record_chunks_aligned: "4 dvd length (record_chunks l segs)"
  by (induction l segs rule: record_chunks.induct)
    (simp_all add: chunk_bytes_aligned tail_chunks_aligned)

subsection \<open>The two outcomes of a call\<close>

lemma WriteRecord_Inr:
  assumes "WriteRecord l w buf = Inr w'"
  shows "length buf < 2 ^ 30"
    and "stream_w w' = stream_w w @ record_chunks l (split_magic (u32_bytes l kMagic) buf)"
    and "except_counter_w w' =
           except_counter_w w + of_nat (length (split_magic (u32_bytes l kMagic) buf) - 1)"
proof -
  show lt: "length buf < 2 ^ 30"
  proof (rule ccontr)
    assume "\<not> length buf < 2 ^ 30"
    then have "WriteRecord l w buf = Inl PreconditionViolation"
      unfolding WriteRecord_def by (simp only: not_less if_True)
    with assms show False by simp
  qed
  then have "\<not> 2 ^ 30 \<le> length buf" by (simp only: not_le)
  then have "WriteRecord l w buf =
      Inr \<lparr>stream_w = stream_w w @ record_chunks l (split_magic (u32_bytes l kMagic) buf),
           except_counter_w = except_counter_w w +
             of_nat (length (split_magic (u32_bytes l kMagic) buf) - 1)\<rparr>"
    unfolding WriteRecord_def Let_def by (simp only: if_False)
  with assms have "w' = \<lparr>stream_w = stream_w w @ record_chunks l (split_magic (u32_bytes l kMagic) buf),
           except_counter_w = except_counter_w w +
             of_nat (length (split_magic (u32_bytes l kMagic) buf) - 1)\<rparr>"
    by simp
  then show "stream_w w' = stream_w w @ record_chunks l (split_magic (u32_bytes l kMagic) buf)"
    and "except_counter_w w' =
           except_counter_w w + of_nat (length (split_magic (u32_bytes l kMagic) buf) - 1)"
    by simp_all
qed

lemma WriteRecord_accepts:
  assumes "length buf < 2 ^ 30"
  shows "WriteRecord l w buf =
      Inr \<lparr>stream_w = stream_w w @ record_chunks l (split_magic (u32_bytes l kMagic) buf),
           except_counter_w = except_counter_w w +
             of_nat (length (split_magic (u32_bytes l kMagic) buf) - 1)\<rparr>"
proof -
  from assms have "\<not> 2 ^ 30 \<le> length buf" by (simp only: not_le)
  then show ?thesis
    unfolding WriteRecord_def Let_def by (simp only: if_False)
qed

lemma WriteRecord_counts_occurrences:
  assumes "WriteRecord l w buf = Inr w'"
  shows "except_counter_w w' =
           except_counter_w w + of_nat (occurrences (u32_bytes l kMagic) buf)"
  using WriteRecord_Inr(3) [OF assms] by (simp add: length_split_magic)

text \<open>Two records worked out: a payload with the magic number in it twice.\<close>

lemma replicate_pads:
  "replicate 2 x = [x, x]" "replicate 3 x = [x, x, x]"
  by (simp_all add: numeral_2_eq_2 numeral_3_eq_3)

lemma split_example:
  "split_magic (u32_bytes LittleEndian kMagic) [1, 2, 10, 35, 215, 62, 3, 10, 35, 215, 62] =
     [[1, 2, 10], [35, 215, 62, 3, 10], [35, 215, 62]]"
  by (simp add: u32_bytes_le_def kMagic_def)

lemma chunks_example:
  "record_chunks LittleEndian [[1, 2, 10], [35, 215, 62, 3, 10], [35, 215, 62]] =
        [10, 35, 215, 62, 3, 0, 0, 64, 1, 2, 10, 0, 10, 35, 215, 62, 5, 0,
         0, 128, 35, 215, 62, 3, 10, 0, 0, 0, 10, 35, 215, 62, 3, 0, 0, 192,
         35, 215, 62, 0]"
  by (simp add: u32_bytes_le_def kMagic_def chunk_bytes_def frame_def EncodeLRec_def pad_len_def
      replicate_pads)

text \<open>
  C5. A call of \<open>WriteRecord\<close> that returns has appended a multiple of 4 bytes, so a
  stream that held a multiple of 4 bytes before the call (an empty one, to begin with) holds
  one after it. Every chunk is 8 bytes, the segment and \<open>(4 - length mod 4) mod 4\<close> pad
  bytes long, a multiple of 4.
\<close>

theorem WriteRecord_alignment:
  assumes "WriteRecord l w buf = Inr w'"
  shows "(\<exists>out. stream_w w' = stream_w w @ out \<and> 4 dvd length out) \<and>
         (4 dvd length (stream_w w) \<longrightarrow> 4 dvd length (stream_w w')) \<and>
         length (chunk_bytes l cflag seg) = 8 + length seg + (4 - length seg mod 4) mod 4 \<and>
         4 dvd length (chunk_bytes l cflag seg)"
proof -
  let ?out = "record_chunks l (split_magic (u32_bytes l kMagic) buf)"
  have s: "stream_w w' = stream_w w @ ?out"
    by (rule WriteRecord_Inr(2) [OF assms])
  have a: "4 dvd length ?out"
    by (rule record_chunks_aligned)
  have 1: "\<exists>out. stream_w w' = stream_w w @ out \<and> 4 dvd length out"
    using s a by blast
  have 2: "4 dvd length (stream_w w) \<longrightarrow> 4 dvd length (stream_w w')"
    using s a by simp
  show ?thesis
    using 1 2 length_chunk_bytes [of l cflag seg] chunk_bytes_aligned [of l cflag seg]
    by blast
qed

theorem WriteRecord_alignment_witness:
  "WriteRecord BigEndian \<lparr>stream_w = [], except_counter_w = 0\<rparr> [7, 8, 9] =
     Inr \<lparr>stream_w = [62, 215, 35, 10, 0, 0, 0, 3, 7, 8, 9, 0], except_counter_w = 0\<rparr> \<and>
   4 dvd length [62, 215, 35, 10, 0, 0, 0, 3, 7, 8, 9, 0 :: byte] \<and>
   length (chunk_bytes BigEndian 0 [7, 8, 9]) = 12"
proof -
  let ?w0 = "\<lparr>stream_w = [], except_counter_w = 0\<rparr>"
  let ?w1 = "\<lparr>stream_w = [62, 215, 35, 10, 0, 0, 0, 3, 7, 8, 9, 0], except_counter_w = 0\<rparr>"
  have s: "split_magic (u32_bytes BigEndian kMagic) [7, 8, 9] = [[7, 8, 9]]"
    by (simp add: u32_bytes_le_def kMagic_def)
  have c: "record_chunks BigEndian [[7, 8, 9]] = [62, 215, 35, 10, 0, 0, 0, 3, 7, 8, 9, 0]"
    by (simp add: u32_bytes_le_def kMagic_def chunk_bytes_def frame_def EncodeLRec_def pad_len_def)
  have short: "length [7, 8, 9 :: byte] < 2 ^ 30" by simp
  have w: "WriteRecord BigEndian ?w0 [7, 8, 9] = Inr ?w1"
    using WriteRecord_accepts [OF short, of BigEndian ?w0]
    unfolding s c by simp
  from WriteRecord_alignment [OF w, of 0 "[7, 8, 9]"] w show ?thesis
    by simp
qed

text \<open>
  C4. A payload of \<open>2 ^ 30\<close> bytes or more is rejected by \<open>WriteRecord\<close> with
  \<open>PreconditionViolation\<close>. When a call is accepted, every segment that \<open>EncodeLRec\<close>
  is applied to is shorter than \<open>2 ^ 30\<close>: its length does not reach the flag bits, and
  the lrecord decodes to the flag and the length that went in.
\<close>

theorem WriteRecord_length_precondition:
  "(2 ^ 30 \<le> length buf \<longrightarrow> WriteRecord l w buf = Inl PreconditionViolation) \<and>
   (WriteRecord l w buf = Inr w' \<and> seg \<in> set (split_magic (u32_bytes l kMagic) buf) \<and>
      cflag < 4 \<longrightarrow>
      length buf < 2 ^ 30 \<and> length seg < 2 ^ 30 \<and>
      DecodeFlag (EncodeLRec cflag (of_nat (length seg))) = cflag \<and>
      unat (DecodeLength (EncodeLRec cflag (of_nat (length seg)))) = length seg)"
proof (intro conjI impI)
  assume "2 ^ 30 \<le> length buf"
  then show "WriteRecord l w buf = Inl PreconditionViolation"
    unfolding WriteRecord_def by (simp only: if_True)
next
  assume a: "WriteRecord l w buf = Inr w' \<and>
    seg \<in> set (split_magic (u32_bytes l kMagic) buf) \<and> cflag < 4"
  then have short: "length buf < 2 ^ 30"
    using WriteRecord_Inr(1) by blast
  from a have seg: "length seg < 2 ^ 30"
    using segments_short [OF short] by blast
  from a have c: "cflag < 4" by simp
  show "length buf < 2 ^ 30" by (rule short)
  show "length seg < 2 ^ 30" by (rule seg)
  show "DecodeFlag (EncodeLRec cflag (of_nat (length seg))) = cflag"
    by (rule DecodeFlag_EncodeLRec [OF c unat_length_u32(2) [OF seg]])
  show "unat (DecodeLength (EncodeLRec cflag (of_nat (length seg)))) = length seg"
    using DecodeLength_EncodeLRec [OF unat_length_u32(2) [OF seg], of cflag]
      unat_length_u32(1) [OF seg]
    by simp
qed

theorem WriteRecord_length_precondition_witness:
  "2 ^ 30 \<le> length (replicate (2 ^ 30) (0 :: byte)) \<and>
   WriteRecord LittleEndian \<lparr>stream_w = [], except_counter_w = 0\<rparr>
       (replicate (2 ^ 30) 0) = Inl PreconditionViolation \<and>
   WriteRecord LittleEndian \<lparr>stream_w = [], except_counter_w = 0\<rparr>
       [1, 2, 10, 35, 215, 62, 3, 10, 35, 215, 62] =
     Inr \<lparr>stream_w = record_chunks LittleEndian
                        [[1, 2, 10], [35, 215, 62, 3, 10], [35, 215, 62]],
          except_counter_w = 2\<rparr> \<and>
   DecodeFlag (EncodeLRec 2 (of_nat (length [35, 215, 62, 3, 10 :: byte]))) = 2 \<and>
   unat (DecodeLength (EncodeLRec 2 (of_nat (length [35, 215, 62, 3, 10 :: byte])))) = 5"
proof -
  let ?w0 = "\<lparr>stream_w = [], except_counter_w = 0\<rparr>"
  let ?b = "[1, 2, 10, 35, 215, 62, 3, 10, 35, 215, 62] :: byte list"
  let ?w1 = "\<lparr>stream_w = record_chunks LittleEndian
                        [[1, 2, 10], [35, 215, 62, 3, 10], [35, 215, 62]],
          except_counter_w = 2\<rparr>"
  have long: "2 ^ 30 \<le> length (replicate (2 ^ 30) (0 :: byte))"
    by (simp only: length_replicate le_refl)
  have rej: "WriteRecord LittleEndian ?w0 (replicate (2 ^ 30) 0) = Inl PreconditionViolation"
    using WriteRecord_length_precondition [of "replicate (2 ^ 30) 0" LittleEndian ?w0] long
    by blast
  have short: "length ?b < 2 ^ 30" by simp
  have acc: "WriteRecord LittleEndian ?w0 ?b = Inr ?w1"
    using WriteRecord_accepts [OF short, of LittleEndian ?w0]
    unfolding split_example by simp
  have seg: "[35, 215, 62, 3, 10] \<in> set (split_magic (u32_bytes LittleEndian kMagic) ?b)"
    unfolding split_example by simp
  have two: "(2 :: u32) < 4" by simp
  from WriteRecord_length_precondition [of ?b LittleEndian ?w0 ?w1 "[35, 215, 62, 3, 10]" 2]
    acc seg two
  have "DecodeFlag (EncodeLRec 2 (of_nat (length [35, 215, 62, 3, 10 :: byte]))) = 2 \<and>
    unat (DecodeLength (EncodeLRec 2 (of_nat (length [35, 215, 62, 3, 10 :: byte])))) =
      length [35, 215, 62, 3, 10 :: byte]"
    by blast
  then have "DecodeFlag (EncodeLRec 2 (of_nat (length [35, 215, 62, 3, 10 :: byte]))) = 2 \<and>
    unat (DecodeLength (EncodeLRec 2 (of_nat (length [35, 215, 62, 3, 10 :: byte])))) = 5"
    by simp
  with long rej acc show ?thesis by blast
qed

section \<open>The reader\<close>

subsection \<open>One chunk\<close>

lemma read_chunk_frame:
  assumes "cflag < 4" and "length payload < 2 ^ 30"
    and "length pad = pad_len (length payload)"
  shows "read_chunk l (frame l cflag payload pad @ rest) = Inr (Some (cflag, payload, rest))"
proof -
  let ?m = "u32_bytes l kMagic"
  let ?h = "u32_bytes l (EncodeLRec cflag (of_nat (length payload)))"
  have len: "unat (DecodeLength (EncodeLRec cflag (of_nat (length payload)))) = length payload"
    using DecodeLength_EncodeLRec [OF unat_length_u32(2) [OF assms(2)], of cflag]
      unat_length_u32(1) [OF assms(2)]
    by simp
  have flag: "DecodeFlag (EncodeLRec cflag (of_nat (length payload))) = cflag"
    by (rule DecodeFlag_EncodeLRec [OF assms(1) unat_length_u32(2) [OF assms(2)]])
  have r1: "Read 4 (frame l cflag payload pad @ rest) = (?m, ?h @ payload @ pad @ rest)"
    by (simp add: Read_def frame_def length_u32_bytes)
  have r2: "Read 4 (?h @ payload @ pad @ rest) = (?h, payload @ pad @ rest)"
    by (simp add: Read_def length_u32_bytes)
  have r3: "Read (length payload) (payload @ pad @ rest) = (payload, pad @ rest)"
    by (simp add: Read_def)
  have r4: "Read (pad_len (length payload)) (pad @ rest) = (pad, rest)"
    by (simp add: Read_def assms(3) [symmetric])
  have ne: "?m \<noteq> []"
    using length_u32_bytes [of l kMagic] by auto
  show ?thesis
    unfolding read_chunk_def r1
    by (simp add: ne length_u32_bytes bytes_u32_inverse r2 Let_def len flag r3 r4 assms(3))
qed

lemma read_chunk_chunk_bytes:
  assumes "cflag < 4" and "length seg < 2 ^ 30"
  shows "read_chunk l (chunk_bytes l cflag seg @ rest) = Inr (Some (cflag, seg, rest))"
  unfolding chunk_bytes_def by (rule read_chunk_frame [OF assms]) simp

lemma magic_read_iff:
  "\<not> (length (take 4 s) < 4 \<or> bytes_u32 l (take 4 s) \<noteq> kMagic) \<longleftrightarrow>
     take 4 s = u32_bytes l kMagic"
proof
  assume "\<not> (length (take 4 s) < 4 \<or> bytes_u32 l (take 4 s) \<noteq> kMagic)"
  then have "length (take 4 s) = 4" and "bytes_u32 l (take 4 s) = kMagic"
    by (simp_all add: min_def split: if_splits)
  then show "take 4 s = u32_bytes l kMagic"
    using u32_bytes_inverse [of "take 4 s" l] by simp
next
  assume "take 4 s = u32_bytes l kMagic"
  then show "\<not> (length (take 4 s) < 4 \<or> bytes_u32 l (take 4 s) \<noteq> kMagic)"
    by (simp add: length_u32_bytes bytes_u32_inverse)
qed

lemma read_chunk_unfold:
  "read_chunk l s =
     (if s = [] then Inr None
      else if malformed l s then Inl CorruptFraming
      else Inr (Some (DecodeFlag (bytes_u32 l (take 4 (drop 4 s))),
                      take (declared_len l s) (drop 8 s),
                      drop (8 + declared_len l s + pad_len (declared_len l s)) s)))"
proof (cases "s = []")
  case True
  then show ?thesis by (simp add: read_chunk_def Read_def)
next
  case ne: False
  show ?thesis
  proof (cases "take 4 s = u32_bytes l kMagic")
    case False
    then have "length (take 4 s) < 4 \<or> bytes_u32 l (take 4 s) \<noteq> kMagic"
      using magic_read_iff [of s l] by blast
    then have "read_chunk l s = Inl CorruptFraming"
      using ne by (simp add: read_chunk_def Read_def)
    with ne False show ?thesis by (simp add: malformed_def)
  next
    case magic: True
    then have m: "\<not> (length (take 4 s) < 4 \<or> bytes_u32 l (take 4 s) \<noteq> kMagic)"
      using magic_read_iff [of s l] by blast
    then have l4: "4 \<le> length s" by (simp add: min_def split: if_splits)
    show ?thesis
    proof (cases "length s < 8")
      case True
      then have "length (take 4 (drop 4 s)) < 4" by simp
      then have "read_chunk l s = Inl CorruptFraming"
        using ne m unfolding read_chunk_def Read_def by (simp del: length_take)
      with ne True show ?thesis by (simp add: malformed_def)
    next
      case l8: False
      then have h: "\<not> length (take 4 (drop 4 s)) < 4" by simp
      let ?n = "declared_len l s"
      have rc: "read_chunk l s =
          (if length (take ?n (drop 8 s)) < ?n then Inl CorruptFraming
           else if length (take (pad_len ?n) (drop (8 + ?n) s)) < pad_len ?n then Inl CorruptFraming
           else Inr (Some (DecodeFlag (bytes_u32 l (take 4 (drop 4 s))),
                      take ?n (drop 8 s), drop (8 + ?n + pad_len ?n) s)))"
        using ne m h unfolding read_chunk_def Read_def declared_len_def Let_def
        by (simp del: length_take add: add.commute add.left_commute)
      have a: "length (take ?n (drop 8 s)) < ?n \<longleftrightarrow> length s < 8 + ?n"
        using l8 by auto
      show ?thesis
      proof (cases "length s < 8 + ?n")
        case True
        then have "malformed l s"
          using ne by (simp add: malformed_def)
        with True ne show ?thesis
          unfolding rc a by simp
      next
        case False
        then have b: "length (take (pad_len ?n) (drop (8 + ?n) s)) < pad_len ?n
                 \<longleftrightarrow> length s < 8 + ?n + pad_len ?n"
          by auto
        have mal: "malformed l s \<longleftrightarrow> length s < 8 + ?n + pad_len ?n"
          using ne magic l8 by (simp add: malformed_def)
        show ?thesis
          unfolding rc a b using ne mal False by auto
      qed
    qed
  qed
qed

lemma declared_len_less: "declared_len l s < 2 ^ 30"
proof -
  have "unat (DecodeLength (bytes_u32 l (take 4 (drop 4 s)))) < unat (2 ^ 30 :: u32)"
    using DecodeLength_less by (simp only: word_less_nat_alt)
  then show ?thesis
    by (simp add: declared_len_def)
qed

lemma split_whole_chunk:
  "s = take 4 s @ take 4 (drop 4 s) @ take n (drop 8 s) @
         take k (drop (8 + n) s) @ drop (8 + n + k) s"
proof -
  have d1: "drop 8 s = drop 4 (drop 4 s)" by simp
  have d2: "drop (8 + n) s = drop n (drop 8 s)" by (simp add: add.commute)
  have d3: "drop (8 + n + k) s = drop k (drop (8 + n) s)" by (simp add: add.commute)
  have "take k (drop (8 + n) s) @ drop (8 + n + k) s = drop (8 + n) s"
    unfolding d3 by (rule append_take_drop_id)
  then have "take n (drop 8 s) @ take k (drop (8 + n) s) @ drop (8 + n + k) s = drop 8 s"
    unfolding d2 by (simp only: append_take_drop_id)
  then have "take 4 (drop 4 s) @ take n (drop 8 s) @ take k (drop (8 + n) s) @
      drop (8 + n + k) s = drop 4 s"
    unfolding d1 by (simp only: append_take_drop_id)
  then show ?thesis
    by (simp only: append_take_drop_id)
qed

lemma read_chunk_Some:
  assumes "read_chunk l s = Inr (Some (cflag, payload, rest))"
  shows "\<exists>pad. s = frame l cflag payload pad @ rest \<and>
           length pad = pad_len (length payload) \<and> length payload < 2 ^ 30 \<and> cflag < 4"
proof -
  let ?n = "declared_len l s"
  let ?lrec = "bytes_u32 l (take 4 (drop 4 s))"
  let ?pad = "take (pad_len ?n) (drop (8 + ?n) s)"
  from assms have ne: "s \<noteq> []" and ok: "\<not> malformed l s"
    by (auto simp: read_chunk_unfold [of l s] split: if_splits)
  with assms have c: "cflag = DecodeFlag ?lrec" and p: "payload = take ?n (drop 8 s)"
    and r: "rest = drop (8 + ?n + pad_len ?n) s"
    by (simp_all add: read_chunk_unfold [of l s])
  from ne ok have magic: "take 4 s = u32_bytes l kMagic" and l8: "8 \<le> length s"
    and whole: "8 + ?n + pad_len ?n \<le> length s"
    by (auto simp: malformed_def)
  have lp: "length payload = ?n"
    using whole by (simp add: p)
  have lpad: "length ?pad = pad_len ?n"
    using whole by simp
  have "length (take 4 (drop 4 s)) = 4"
    using l8 by simp
  then have hb: "u32_bytes l ?lrec = take 4 (drop 4 s)"
    by (rule u32_bytes_inverse)
  have "of_nat ?n = DecodeLength ?lrec"
    by (simp add: declared_len_def)
  then have "EncodeLRec cflag (of_nat (length payload)) = ?lrec"
    by (simp only: lp c EncodeLRec_Decode)
  then have "frame l cflag payload ?pad =
      take 4 s @ take 4 (drop 4 s) @ take ?n (drop 8 s) @ ?pad"
    by (simp only: frame_def magic hb p)
  then have "frame l cflag payload ?pad @ rest = s"
    using split_whole_chunk [of s ?n "pad_len ?n"] by (simp only: r append_assoc)
  moreover have "length payload < 2 ^ 30"
    using declared_len_less [of l s] by (simp only: lp)
  moreover have "cflag < 4"
    by (simp only: c DecodeFlag_less)
  ultimately show ?thesis
    using lpad lp by (intro exI [of _ ?pad]) simp
qed

subsection \<open>The loop\<close>

lemma read_loop_tail_chunks:
  assumes "segs \<noteq> []" and "\<forall>seg \<in> set segs. length seg < 2 ^ 30"
  shows "read_loop l st acc (tail_chunks l segs @ rest) = Inr (True, acc @ concat segs, rest)"
  using assms
proof (induction l segs arbitrary: acc st rule: tail_chunks.induct)
  case (1 l)
  then show ?case by simp
next
  case (2 l seg)
  then show ?case
    by (simp add: read_loop.simps [of l st acc] read_chunk_chunk_bytes)
next
  case (3 l seg v va)
  have "read_chunk l (chunk_bytes l 2 seg @ tail_chunks l (v # va) @ rest)
        = Inr (Some (2, seg, tail_chunks l (v # va) @ rest))"
    using 3(3) by (intro read_chunk_chunk_bytes) simp_all
  moreover have "read_loop l True (acc @ seg) (tail_chunks l (v # va) @ rest)
        = Inr (True, (acc @ seg) @ concat (v # va), rest)"
    using 3(3) by (intro 3(1)) simp_all
  ultimately show ?case by (simp add: read_loop.simps [of l st acc])
qed

lemma read_loop_record_chunks:
  assumes "segs \<noteq> []" and "\<forall>seg \<in> set segs. length seg < 2 ^ 30"
  shows "read_loop l st acc (record_chunks l segs @ rest) = Inr (True, acc @ concat segs, rest)"
proof (cases segs)
  case Nil
  with assms(1) show ?thesis by simp
next
  case (Cons seg segs')
  show ?thesis
  proof (cases segs')
    case Nil
    with Cons assms(2) show ?thesis
      by (simp add: read_loop.simps [of l st acc] read_chunk_chunk_bytes)
  next
    case (Cons v va)
    have "read_chunk l (chunk_bytes l 1 seg @ tail_chunks l segs' @ rest)
          = Inr (Some (1, seg, tail_chunks l segs' @ rest))"
      using assms(2) \<open>segs = seg # segs'\<close> by (intro read_chunk_chunk_bytes) simp_all
    moreover have "read_loop l True (acc @ seg) (tail_chunks l segs' @ rest)
          = Inr (True, (acc @ seg) @ concat segs', rest)"
      using assms(2) \<open>segs = seg # segs'\<close> Cons by (intro read_loop_tail_chunks) simp_all
    ultimately show ?thesis
      using \<open>segs = seg # segs'\<close> Cons by (simp add: read_loop.simps [of l st acc])
  qed
qed






text \<open>
  C1. A payload shorter than \<open>2 ^ 30\<close> bytes is accepted by \<open>WriteRecord\<close>, and
  \<open>ReadRecord\<close> on the bytes the call appended returns the payload, byte for byte, with
  \<open>found = True\<close>, and leaves what follows them in the stream. The payload is any byte
  list, so the magic number may stand in it anywhere and any number of times.
\<close>

theorem WriteRecord_ReadRecord_roundtrip:
  assumes "length b < 2 ^ 30"
  shows "\<exists>w' out. WriteRecord l w b = Inr w' \<and> stream_w w' = stream_w w @ out \<and>
           ReadRecord l \<lparr>stream_r = out @ rest, end_of_stream_r = e\<rparr> =
             Inr (True, b, \<lparr>stream_r = rest, end_of_stream_r = e\<rparr>)"
proof -
  let ?segs = "split_magic (u32_bytes l kMagic) b"
  let ?out = "record_chunks l ?segs"
  let ?w' = "\<lparr>stream_w = stream_w w @ ?out,
               except_counter_w = except_counter_w w + of_nat (length ?segs - 1)\<rparr>"
  have w: "WriteRecord l w b = Inr ?w'"
    by (rule WriteRecord_accepts [OF assms])
  have "\<forall>seg \<in> set ?segs. length seg < 2 ^ 30"
    using segments_short [OF assms] by blast
  then have "read_loop l False [] (?out @ rest) = Inr (True, [] @ concat ?segs, rest)"
    by (intro read_loop_record_chunks split_magic_not_Nil)
  then have r: "ReadRecord l \<lparr>stream_r = ?out @ rest, end_of_stream_r = e\<rparr> =
             Inr (True, b, \<lparr>stream_r = rest, end_of_stream_r = e\<rparr>)"
    by (simp add: ReadRecord_def concat_split_magic)
  have s: "stream_w ?w' = stream_w w @ ?out" by simp
  from w s r show ?thesis by blast
qed

theorem WriteRecord_ReadRecord_roundtrip_witness:
  "length [1, 2, 10, 35, 215, 62, 3, 10, 35, 215, 62 :: byte] < 2 ^ 30 \<and>
   WriteRecord LittleEndian \<lparr>stream_w = [], except_counter_w = 0\<rparr>
       [1, 2, 10, 35, 215, 62, 3, 10, 35, 215, 62] =
     Inr \<lparr>stream_w =
        [10, 35, 215, 62, 3, 0, 0, 64, 1, 2, 10, 0, 10, 35, 215, 62, 5, 0,
         0, 128, 35, 215, 62, 3, 10, 0, 0, 0, 10, 35, 215, 62, 3, 0, 0, 192,
         35, 215, 62, 0],
        except_counter_w = 2\<rparr> \<and>
   ReadRecord LittleEndian \<lparr>stream_r =
        [10, 35, 215, 62, 3, 0, 0, 64, 1, 2, 10, 0, 10, 35, 215, 62, 5, 0,
         0, 128, 35, 215, 62, 3, 10, 0, 0, 0, 10, 35, 215, 62, 3, 0, 0, 192,
         35, 215, 62, 0], end_of_stream_r = False\<rparr> =
     Inr (True, [1, 2, 10, 35, 215, 62, 3, 10, 35, 215, 62],
          \<lparr>stream_r = [], end_of_stream_r = False\<rparr>)"
proof -
  let ?w0 = "\<lparr>stream_w = [], except_counter_w = 0\<rparr>"
  let ?b = "[1, 2, 10, 35, 215, 62, 3, 10, 35, 215, 62] :: byte list"
  let ?bytes = "[10, 35, 215, 62, 3, 0, 0, 64, 1, 2, 10, 0, 10, 35, 215, 62, 5, 0,
         0, 128, 35, 215, 62, 3, 10, 0, 0, 0, 10, 35, 215, 62, 3, 0, 0, 192,
         35, 215, 62, 0] :: byte list"
  have short: "length ?b < 2 ^ 30" by simp
  have w: "WriteRecord LittleEndian ?w0 ?b = Inr \<lparr>stream_w = ?bytes, except_counter_w = 2\<rparr>"
    using WriteRecord_accepts [OF short, of LittleEndian ?w0]
    unfolding split_example chunks_example by simp
  from WriteRecord_ReadRecord_roundtrip [OF short, of LittleEndian ?w0 "[]" False]
  obtain w' out where "WriteRecord LittleEndian ?w0 ?b = Inr w'"
    and "stream_w w' = stream_w ?w0 @ out"
    and r: "ReadRecord LittleEndian \<lparr>stream_r = out @ [], end_of_stream_r = False\<rparr> =
      Inr (True, ?b, \<lparr>stream_r = [], end_of_stream_r = False\<rparr>)"
    by blast
  with w have "out = ?bytes" by simp
  with r have "ReadRecord LittleEndian \<lparr>stream_r = ?bytes, end_of_stream_r = False\<rparr> =
      Inr (True, ?b, \<lparr>stream_r = [], end_of_stream_r = False\<rparr>)"
    by simp
  with short w show ?thesis by blast
qed






end
